theory Spec2Isabelle
  imports Complex_Main
begin

section \<open>The BB84 notebook as a function of its random draws\<close>

text \<open>
  The development follows the code cells of \<^verbatim>\<open>2.1_BB84_Protocol.ipynb\<close> in their
  order. The notebook is a linear script; its only inputs are the constant
  \<^verbatim>\<open>num_bits\<close> (here a parameter) and the values that the random sources return:
  the three calls of \<^verbatim>\<open>random.choices\<close> and the sampling of the measurement by
  \<^verbatim>\<open>cirq.Simulator().run\<close>. Those values are made explicit as a record of draws, so
  that one execution of the notebook is one value of that record.
\<close>

subsection \<open>Python values and exceptions\<close>

datatype py_error = IndexError | KeyError | ValueError

text \<open>\<^verbatim>\<open>xs[i]\<close> for an index produced by \<^verbatim>\<open>range\<close> (never negative).\<close>

definition getitem :: "'a list \<Rightarrow> nat \<Rightarrow> py_error + 'a" where
  "getitem xs i = (if i < length xs then Inr (xs ! i) else Inl IndexError)"

text \<open>\<^verbatim>\<open>d[k]\<close> on a dictionary.\<close>

definition dict_get :: "('k \<rightharpoonup> 'v) \<Rightarrow> 'k \<Rightarrow> py_error + 'v" where
  "dict_get m k = (case m k of None \<Rightarrow> Inl KeyError | Some v \<Rightarrow> Inr v)"

text \<open>\<^verbatim>\<open>range(n)\<close>: empty when \<^verbatim>\<open>n\<close> is zero or negative.\<close>

definition py_range :: "int \<Rightarrow> nat list" where
  "py_range n = [0..<nat n]"

text \<open>
  \<^verbatim>\<open>for i in r: body\<close> over a state; an exception raised by the body ends the loop
  and the run.
\<close>

fun for_each :: "nat list \<Rightarrow> (nat \<Rightarrow> 's \<Rightarrow> py_error + 's) \<Rightarrow> 's \<Rightarrow> py_error + 's" where
  "for_each [] body s = Inr s"
| "for_each (i # is) body s =
     (case body i s of Inl e \<Rightarrow> Inl e | Inr s' \<Rightarrow> for_each is body s')"

subsection \<open>Step 0: gates, bases and qubits\<close>

datatype gate = cirq_I | cirq_X | cirq_H

text \<open>The basis labels are the strings \<^verbatim>\<open>'X'\<close> and \<^verbatim>\<open>'Z'\<close> of the notebook.\<close>

datatype basis = X | Z

type_synonym qubit = nat

text \<open>\<^verbatim>\<open>encode_gates = {0: cirq.I, 1: cirq.X}\<close>\<close>

definition encode_gates :: "nat \<rightharpoonup> gate" where
  "encode_gates = [0 \<mapsto> cirq_I, 1 \<mapsto> cirq_X]"

text \<open>\<^verbatim>\<open>basis_gates = {'Z': cirq.I, 'X': cirq.H}\<close>\<close>

definition basis_gates :: "basis \<rightharpoonup> gate" where
  "basis_gates = [Z \<mapsto> cirq_I, X \<mapsto> cirq_H]"

text \<open>
  \<^verbatim>\<open>qubits = cirq.NamedQubit.range(num_bits, prefix='q')\<close>: the qubits
  \<^verbatim>\<open>q0, q1, ...\<close>, identified by their number.
\<close>

definition named_qubit_range :: "int \<Rightarrow> qubit list" where
  "named_qubit_range n = py_range n"

subsection \<open>The random draws of one execution\<close>

text \<open>
  \<^verbatim>\<open>choices(population, k=n)\<close> returns \<^verbatim>\<open>n\<close> elements, each
  \<^verbatim>\<open>population[floor(random() * len(population))]\<close>. For a population of two
  elements the \<open>j\<close>-th draw is recorded as the index it selects: \<open>False\<close> for
  index 0 and \<open>True\<close> for index 1. A negative \<^verbatim>\<open>k\<close> gives the empty list.
  The measurement draws are the uniform samples in \<open>[0, 1)\<close> the simulator uses,
  one for each qubit.
\<close>

record draws =
  key_draw :: "nat \<Rightarrow> bool"
  alice_basis_draw :: "nat \<Rightarrow> bool"
  bob_basis_draw :: "nat \<Rightarrow> bool"
  measure_draw :: "qubit \<Rightarrow> real"

definition choices :: "'a list \<Rightarrow> int \<Rightarrow> (nat \<Rightarrow> bool) \<Rightarrow> 'a list" where
  "choices population k pick =
     map (\<lambda>j. population ! (if pick j then 1 else 0)) [0..<nat k]"

subsection \<open>Circuits\<close>

datatype operation = Gate gate qubit | Measure "qubit list" string

type_synonym circuit = "operation list"

text \<open>
  \<^verbatim>\<open>cirq.measure(qubits, key=...)\<close>: the measurement gate refuses an empty list of
  qubits with a \<^verbatim>\<open>ValueError\<close>.
\<close>

definition cirq_measure :: "qubit list \<Rightarrow> string \<Rightarrow> py_error + operation" where
  "cirq_measure qs key = (if qs = [] then Inl ValueError else Inr (Measure qs key))"

text \<open>Step 3, the body of Alice's loop (\<open>i\<close> is the loop variable \<^verbatim>\<open>bit\<close>), and the loop.\<close>

definition alice_step ::
  "nat list \<Rightarrow> basis list \<Rightarrow> qubit list \<Rightarrow> nat \<Rightarrow> circuit \<Rightarrow> py_error + circuit" where
  "alice_step alice_key alice_bases qubits i alice_cirquit =
     (case getitem alice_key i of Inl e \<Rightarrow> Inl e | Inr encode_value \<Rightarrow>
      case dict_get encode_gates encode_value of Inl e \<Rightarrow> Inl e | Inr encode_gate \<Rightarrow>
      case getitem alice_bases i of Inl e \<Rightarrow> Inl e | Inr basis_value \<Rightarrow>
      case dict_get basis_gates basis_value of Inl e \<Rightarrow> Inl e | Inr basis_gate \<Rightarrow>
      case getitem qubits i of Inl e \<Rightarrow> Inl e | Inr qubit \<Rightarrow>
        Inr (alice_cirquit @ [Gate encode_gate qubit] @ [Gate basis_gate qubit]))"

definition alice_cirquit ::
  "int \<Rightarrow> nat list \<Rightarrow> basis list \<Rightarrow> qubit list \<Rightarrow> py_error + circuit" where
  "alice_cirquit num_bits alice_key alice_bases qubits =
     for_each (py_range num_bits) (alice_step alice_key alice_bases qubits) []"

text \<open>Step 5, the body of Bob's loop, and the loop.\<close>

definition bob_step ::
  "basis list \<Rightarrow> qubit list \<Rightarrow> nat \<Rightarrow> circuit \<Rightarrow> py_error + circuit" where
  "bob_step bob_bases qubits i bob_circuit =
     (case getitem bob_bases i of Inl e \<Rightarrow> Inl e | Inr basis_value \<Rightarrow>
      case dict_get basis_gates basis_value of Inl e \<Rightarrow> Inl e | Inr basis_gate \<Rightarrow>
      case getitem qubits i of Inl e \<Rightarrow> Inl e | Inr qubit \<Rightarrow>
        Inr (bob_circuit @ [Gate basis_gate qubit]))"

text \<open>Steps 5 and 6: the loop, then the measurement of all qubits under the key
  \<^verbatim>\<open>'bob_key'\<close>.\<close>

definition bob_circuit :: "int \<Rightarrow> basis list \<Rightarrow> qubit list \<Rightarrow> py_error + circuit" where
  "bob_circuit num_bits bob_bases qubits =
     (case for_each (py_range num_bits) (bob_step bob_bases qubits) [] of
        Inl e \<Rightarrow> Inl e
      | Inr gates \<Rightarrow>
          (case cirq_measure qubits ''bob_key'' of
             Inl e \<Rightarrow> Inl e
           | Inr m \<Rightarrow> Inr (gates @ [m])))"

subsection \<open>The noiseless simulator\<close>

text \<open>
  Every gate of the notebook acts on one qubit and has a real matrix, so the state
  vector stays a product of one-qubit states with real amplitudes: a pair \<open>(a, b)\<close>
  stands for \<open>a|0> + b|1>\<close>. Each qubit starts in \<open>|0>\<close>. The gates are the
  matrices of \<^verbatim>\<open>cirq.I\<close>, \<^verbatim>\<open>cirq.X\<close> and \<^verbatim>\<open>cirq.H\<close>, in exact
  arithmetic.
\<close>

type_synonym amplitudes = "real \<times> real"

fun apply_gate :: "gate \<Rightarrow> amplitudes \<Rightarrow> amplitudes" where
  "apply_gate cirq_I (a, b) = (a, b)"
| "apply_gate cirq_X (a, b) = (b, a)"
| "apply_gate cirq_H (a, b) = ((a + b) / sqrt 2, (a - b) / sqrt 2)"

text \<open>The Born rule: the probability of reading 0 or 1 from a qubit.\<close>

fun prob :: "amplitudes \<Rightarrow> nat \<Rightarrow> real" where
  "prob (a, b) outcome = (if outcome = 0 then a\<^sup>2 else if outcome = 1 then b\<^sup>2 else 0)"

text \<open>
  Sampling one qubit from its cumulative distribution with a uniform draw \<open>u\<close>:
  the outcome is 0 when \<open>u\<close> falls below the probability of 0, and 1 otherwise.
\<close>

definition measure_qubit :: "amplitudes \<Rightarrow> real \<Rightarrow> nat" where
  "measure_qubit s u = (if u < prob s 0 then 0 else 1)"

definition collapse :: "nat \<Rightarrow> amplitudes" where
  "collapse outcome = (if outcome = 0 then (1, 0) else (0, 1))"

record sim_state =
  state_vector :: "qubit \<Rightarrow> amplitudes"
  measurements :: "string \<rightharpoonup> nat list"

definition sim_init :: sim_state where
  "sim_init = \<lparr>state_vector = (\<lambda>q. (1, 0)), measurements = Map.empty\<rparr>"

fun sim_step :: "(qubit \<Rightarrow> real) \<Rightarrow> operation \<Rightarrow> sim_state \<Rightarrow> sim_state" where
  "sim_step u (Gate g q) s =
     s\<lparr>state_vector := (state_vector s)(q := apply_gate g (state_vector s q))\<rparr>"
| "sim_step u (Measure qs key) s =
     s\<lparr>state_vector :=
         (\<lambda>q. if q \<in> set qs then collapse (measure_qubit (state_vector s q) (u q))
              else state_vector s q),
       measurements :=
         (measurements s)(key \<mapsto> map (\<lambda>q. measure_qubit (state_vector s q) (u q)) qs)\<rparr>"

text \<open>\<^verbatim>\<open>cirq.Simulator().run(circuit)\<close> with one repetition.\<close>

definition simulator_run :: "circuit \<Rightarrow> (qubit \<Rightarrow> real) \<Rightarrow> sim_state" where
  "simulator_run c u = fold (sim_step u) c sim_init"

text \<open>The gates of a circuit that come before its first measurement, and the state
  of the qubits when that measurement is reached.\<close>

fun is_gate :: "operation \<Rightarrow> bool" where
  "is_gate (Gate g q) = True"
| "is_gate (Measure qs key) = False"

definition state_at_measurement :: "circuit \<Rightarrow> qubit \<Rightarrow> amplitudes" where
  "state_at_measurement c = state_vector (fold (sim_step (\<lambda>q. 0)) (takeWhile is_gate c) sim_init)"

subsection \<open>Phases 1 and 2: preparation, transmission and measurement\<close>

text \<open>
  The combined circuit \<^verbatim>\<open>bb84_circuit = alice_cirquit + bob_circuit\<close> of one
  execution, with the lists it is built from.
\<close>

definition bb84_circuit :: "int \<Rightarrow> draws \<Rightarrow> py_error + circuit" where
  "bb84_circuit num_bits d =
     (let qubits = named_qubit_range num_bits;
          alice_key = choices [0, 1] num_bits (key_draw d);
          alice_bases = choices [X, Z] num_bits (alice_basis_draw d)
      in case alice_cirquit num_bits alice_key alice_bases qubits of
           Inl e \<Rightarrow> Inl e
         | Inr ac \<Rightarrow>
             (let bob_bases = choices [X, Z] num_bits (bob_basis_draw d)
              in case bob_circuit num_bits bob_bases qubits of
                   Inl e \<Rightarrow> Inl e
                 | Inr bc \<Rightarrow> Inr (ac @ bc)))"

text \<open>
  Cells 7 to 14: the values of \<^verbatim>\<open>alice_key\<close>, \<^verbatim>\<open>alice_bases\<close>,
  \<^verbatim>\<open>bob_bases\<close> and \<^verbatim>\<open>bob_key\<close> after the simulation.
\<close>

definition transmit ::
  "int \<Rightarrow> draws \<Rightarrow> py_error + (nat list \<times> basis list \<times> basis list \<times> nat list)" where
  "transmit num_bits d =
     (case bb84_circuit num_bits d of
        Inl e \<Rightarrow> Inl e
      | Inr c \<Rightarrow>
          (let results = simulator_run c (measure_draw d)
           in case dict_get (measurements results) ''bob_key'' of
                Inl e \<Rightarrow> Inl e
              | Inr bob_key \<Rightarrow>
                  Inr (choices [0, 1] num_bits (key_draw d),
                       choices [X, Z] num_bits (alice_basis_draw d),
                       choices [X, Z] num_bits (bob_basis_draw d),
                       bob_key)))"

subsection \<open>Phase 3: reconciliation and the integrity check\<close>

text \<open>Step 8, the body of the sifting loop over the pair
  \<^verbatim>\<open>(final_alice_key, final_bob_key)\<close>, and the loop.\<close>

definition reconcile_step ::
  "nat list \<Rightarrow> basis list \<Rightarrow> basis list \<Rightarrow> nat list \<Rightarrow> nat \<Rightarrow>
   nat list \<times> nat list \<Rightarrow> py_error + (nat list \<times> nat list)" where
  "reconcile_step alice_key alice_bases bob_bases bob_key i keys =
     (case getitem alice_bases i of Inl e \<Rightarrow> Inl e | Inr a \<Rightarrow>
      case getitem bob_bases i of Inl e \<Rightarrow> Inl e | Inr b \<Rightarrow>
        if a = b then
          (case getitem alice_key i of Inl e \<Rightarrow> Inl e | Inr ka \<Rightarrow>
           case getitem bob_key i of Inl e \<Rightarrow> Inl e | Inr kb \<Rightarrow>
             Inr (fst keys @ [ka], snd keys @ [kb]))
        else Inr keys)"

definition reconcile ::
  "int \<Rightarrow> nat list \<Rightarrow> basis list \<Rightarrow> basis list \<Rightarrow> nat list \<Rightarrow>
   py_error + (nat list \<times> nat list)" where
  "reconcile num_bits alice_key alice_bases bob_bases bob_key =
     for_each (py_range num_bits)
       (reconcile_step alice_key alice_bases bob_bases bob_key) ([], [])"

text \<open>The indices at which the two parties chose the same basis, in increasing order.\<close>

definition matching_indices :: "int \<Rightarrow> basis list \<Rightarrow> basis list \<Rightarrow> nat list" where
  "matching_indices num_bits alice_bases bob_bases =
     filter (\<lambda>i. alice_bases ! i = bob_bases ! i) (py_range num_bits)"

text \<open>
  Step 9. What the last cell prints: either the message that the keys can be used,
  followed by the two keys, or the message that Eve was listening, with no key.
\<close>

datatype report = Secure "nat list" "nat list" | Compromised

definition integrity_check ::
  "nat list \<Rightarrow> nat list \<Rightarrow> py_error + (nat list \<times> nat list \<times> report)" where
  "integrity_check final_alice_key final_bob_key =
     (case getitem final_alice_key 0 of Inl e \<Rightarrow> Inl e | Inr a0 \<Rightarrow>
      case getitem final_bob_key 0 of Inl e \<Rightarrow> Inl e | Inr b0 \<Rightarrow>
        if a0 = b0 then
          Inr (drop 1 final_alice_key, drop 1 final_bob_key,
               Secure (drop 1 final_alice_key) (drop 1 final_bob_key))
        else Inr (final_alice_key, final_bob_key, Compromised))"

subsection \<open>The whole notebook\<close>

text \<open>
  The variables at the end of a run that raised no exception. The notebook reuses
  \<^verbatim>\<open>final_alice_key\<close> and \<^verbatim>\<open>final_bob_key\<close>: \<open>sifted_alice\<close> and
  \<open>sifted_bob\<close> are their values after step 8, \<open>final_alice_key\<close> and
  \<open>final_bob_key\<close> their values after step 9.
\<close>

record session =
  alice_key :: "nat list"
  alice_bases :: "basis list"
  bob_bases :: "basis list"
  bob_key :: "nat list"
  sifted_alice :: "nat list"
  sifted_bob :: "nat list"
  final_alice_key :: "nat list"
  final_bob_key :: "nat list"
  printed :: report

definition bb84 :: "int \<Rightarrow> draws \<Rightarrow> py_error + session" where
  "bb84 num_bits d =
     (case transmit num_bits d of
        Inl e \<Rightarrow> Inl e
      | Inr (ak, ab, bb, bk) \<Rightarrow>
          (case reconcile num_bits ak ab bb bk of
             Inl e \<Rightarrow> Inl e
           | Inr (sa, sb) \<Rightarrow>
               (case integrity_check sa sb of
                  Inl e \<Rightarrow> Inl e
                | Inr (fa, fb, r) \<Rightarrow>
                    Inr \<lparr>alice_key = ak, alice_bases = ab, bob_bases = bb, bob_key = bk,
                         sifted_alice = sa, sifted_bob = sb,
                         final_alice_key = fa, final_bob_key = fb, printed = r\<rparr>)))"

section \<open>Derived notions\<close>

text \<open>
  The gate selected by one draw: the draw \<open>True\<close> selects the bit 1 and hence
  \<^verbatim>\<open>cirq.X\<close> from \<open>encode_gates\<close>; for a basis it selects \<^verbatim>\<open>'Z'\<close> and
  hence \<^verbatim>\<open>cirq.I\<close> from \<open>basis_gates\<close>. These are shown below to be what the
  loops of steps 3 and 5 append.
\<close>

definition bit_of :: "bool \<Rightarrow> nat" where
  "bit_of b = (if b then 1 else 0)"

definition encode_gate_of :: "bool \<Rightarrow> gate" where
  "encode_gate_of b = (if b then cirq_X else cirq_I)"

definition basis_gate_of :: "bool \<Rightarrow> gate" where
  "basis_gate_of b = (if b then cirq_I else cirq_H)"

text \<open>The gates of the combined circuit, Alice's followed by Bob's, for \<open>m\<close> qubits.\<close>

definition prepared_gates :: "nat \<Rightarrow> draws \<Rightarrow> circuit" where
  "prepared_gates m d =
     concat (map (\<lambda>i. [Gate (encode_gate_of (key_draw d i)) i,
                        Gate (basis_gate_of (alice_basis_draw d i)) i]) [0..<m]) @
     map (\<lambda>i. Gate (basis_gate_of (bob_basis_draw d i)) i) [0..<m]"

text \<open>The gates a circuit applies to one qubit, in order.\<close>

fun gates_on :: "qubit \<Rightarrow> circuit \<Rightarrow> gate list" where
  "gates_on q [] = []"
| "gates_on q (Gate g q' # c) = (if q' = q then g # gates_on q c else gates_on q c)"
| "gates_on q (Measure qs key # c) = gates_on q c"

text \<open>
  The state of qubit \<open>q\<close> when Bob measures it, and the bit he reads from it with
  the measurement draw of the execution.
\<close>

definition qubit_at_bob :: "draws \<Rightarrow> qubit \<Rightarrow> amplitudes" where
  "qubit_at_bob d q =
     apply_gate (basis_gate_of (bob_basis_draw d q))
       (apply_gate (basis_gate_of (alice_basis_draw d q))
         (apply_gate (encode_gate_of (key_draw d q)) (1, 0)))"

definition bob_bit :: "draws \<Rightarrow> qubit \<Rightarrow> nat" where
  "bob_bit d q = measure_qubit (qubit_at_bob d q) (measure_draw d q)"

text \<open>The measurement draws of the qubits in use are uniform samples, that is, they lie
  in \<open>[0, 1)\<close>.\<close>

definition valid_draws :: "int \<Rightarrow> draws \<Rightarrow> bool" where
  "valid_draws n d = (\<forall>q<nat n. 0 \<le> measure_draw d q \<and> measure_draw d q < 1)"

text \<open>The sifted key that the draws of an execution determine: Alice's bits at the
  indices where the drawn bases agree.\<close>

definition sifted_draws :: "int \<Rightarrow> draws \<Rightarrow> nat list" where
  "sifted_draws n d =
     map (\<lambda>i. choices [0, 1] n (key_draw d) ! i)
       (matching_indices n (choices [X, Z] n (alice_basis_draw d))
          (choices [X, Z] n (bob_basis_draw d)))"

text \<open>Changing the draw that decides Alice's bit at one index.\<close>

definition flip_alice_bit :: "nat \<Rightarrow> draws \<Rightarrow> draws" where
  "flip_alice_bit i d = d\<lparr>key_draw := (key_draw d)(i := \<not> key_draw d i)\<rparr>"

subsection \<open>Concrete executions\<close>

text \<open>A list of draws, read by position.\<close>

definition draw_list :: "bool list \<Rightarrow> nat \<Rightarrow> bool" where
  "draw_list xs j = (j < length xs \<and> xs ! j)"

definition three_quarters :: "qubit \<Rightarrow> real" where
  "three_quarters q = 3 / 4"

definition one_quarter :: "qubit \<Rightarrow> real" where
  "one_quarter q = 1 / 4"

text \<open>
  The execution recorded in the outputs of the notebook:
  \<^verbatim>\<open>alice_key = [0, 0, 0, 1, 0, 0, 0, 1, 0, 1]\<close>,
  \<^verbatim>\<open>alice_bases = ['X', 'Z', 'X', 'Z', 'Z', 'Z', 'X', 'Z', 'X', 'Z']\<close> and
  \<^verbatim>\<open>bob_bases = ['X', 'Z', 'X', 'X', 'Z', 'X', 'X', 'Z', 'Z', 'Z']\<close>, with the
  measurement draws left open.
\<close>

definition notebook_run :: "(qubit \<Rightarrow> real) \<Rightarrow> draws" where
  "notebook_run u =
     \<lparr>key_draw = draw_list [False, False, False, True, False, False, False, True, False, True],
      alice_basis_draw = draw_list [False, True, False, True, True, True, False, True, False, True],
      bob_basis_draw = draw_list [False, True, False, False, True, False, False, True, True, True],
      measure_draw = u\<rparr>"

text \<open>An execution in which Alice draws the bit 0 and the basis \<^verbatim>\<open>'X'\<close> and Bob
  draws the basis \<^verbatim>\<open>'Z'\<close> for every qubit.\<close>

definition mismatched_run :: draws where
  "mismatched_run =
     \<lparr>key_draw = (\<lambda>j. False), alice_basis_draw = (\<lambda>j. False),
      bob_basis_draw = (\<lambda>j. True), measure_draw = one_quarter\<rparr>"

section \<open>The circuits that the loops build\<close>

lemma length_choices: "length (choices p k pick) = nat k"
  by (simp add: choices_def)

lemma nth_choices: "i < nat k \<Longrightarrow> choices p k pick ! i = p ! (if pick i then 1 else 0)"
  by (simp add: choices_def)

lemma nth_bases: "i < nat n \<Longrightarrow> choices [X, Z] n bd ! i = (if bd i then Z else X)"
  by (simp add: nth_choices)

lemma nth_key: "i < nat n \<Longrightarrow> choices [0, 1] n kd ! i = bit_of (kd i)"
  by (simp add: nth_choices bit_of_def)

lemma bases_agree_iff:
  "i < nat n \<Longrightarrow>
   (choices [X, Z] n ad ! i = choices [X, Z] n bd ! i) = (ad i = bd i)"
  by (simp add: nth_bases)

lemma for_each_appends:
  "(\<And>i c. i \<in> set ns \<Longrightarrow> body i c = Inr (c @ f i)) \<Longrightarrow>
   for_each ns body c = Inr (c @ concat (map f ns))"
  by (induction ns arbitrary: c) simp_all

lemma alice_step_ok:
  assumes "i < nat n"
  shows "alice_step (choices [0, 1] n kd) (choices [X, Z] n bd) (named_qubit_range n) i c =
         Inr (c @ [Gate (encode_gate_of (kd i)) i, Gate (basis_gate_of (bd i)) i])"
  using assms
  by (simp add: alice_step_def getitem_def dict_get_def length_choices nth_choices
      named_qubit_range_def py_range_def encode_gates_def basis_gates_def
      encode_gate_of_def basis_gate_of_def)

lemma bob_step_ok:
  assumes "i < nat n"
  shows "bob_step (choices [X, Z] n bd) (named_qubit_range n) i c =
         Inr (c @ [Gate (basis_gate_of (bd i)) i])"
  using assms
  by (simp add: bob_step_def getitem_def dict_get_def length_choices nth_choices
      named_qubit_range_def py_range_def basis_gates_def basis_gate_of_def)

lemma alice_cirquit_ok:
  "alice_cirquit n (choices [0, 1] n kd) (choices [X, Z] n bd) (named_qubit_range n) =
   Inr (concat (map (\<lambda>i. [Gate (encode_gate_of (kd i)) i, Gate (basis_gate_of (bd i)) i])
                 [0..<nat n]))"
proof -
  have "for_each [0..<nat n]
          (alice_step (choices [0, 1] n kd) (choices [X, Z] n bd) (named_qubit_range n)) [] =
        Inr ([] @ concat (map (\<lambda>i. [Gate (encode_gate_of (kd i)) i,
                                      Gate (basis_gate_of (bd i)) i]) [0..<nat n]))"
  proof (rule for_each_appends)
    fix i c
    assume "i \<in> set [0..<nat n]"
    then have "i < nat n" by simp
    then show "alice_step (choices [0, 1] n kd) (choices [X, Z] n bd) (named_qubit_range n) i c =
               Inr (c @ [Gate (encode_gate_of (kd i)) i, Gate (basis_gate_of (bd i)) i])"
      by (rule alice_step_ok)
  qed
  then show ?thesis
    by (simp add: alice_cirquit_def py_range_def)
qed

lemma bob_gates_ok:
  "for_each (py_range n) (bob_step (choices [X, Z] n bd) (named_qubit_range n)) [] =
   Inr (map (\<lambda>i. Gate (basis_gate_of (bd i)) i) [0..<nat n])"
proof -
  have "for_each [0..<nat n] (bob_step (choices [X, Z] n bd) (named_qubit_range n)) [] =
        Inr ([] @ concat (map (\<lambda>i. [Gate (basis_gate_of (bd i)) i]) [0..<nat n]))"
  proof (rule for_each_appends)
    fix i c
    assume "i \<in> set [0..<nat n]"
    then have "i < nat n" by simp
    then show "bob_step (choices [X, Z] n bd) (named_qubit_range n) i c =
               Inr (c @ [Gate (basis_gate_of (bd i)) i])"
      by (rule bob_step_ok)
  qed
  then show ?thesis
    by (simp add: py_range_def concat_map_singleton)
qed

lemma bob_circuit_ok:
  assumes "1 \<le> n"
  shows "bob_circuit n (choices [X, Z] n bd) (named_qubit_range n) =
         Inr (map (\<lambda>i. Gate (basis_gate_of (bd i)) i) [0..<nat n] @
              [Measure [0..<nat n] ''bob_key''])"
proof -
  from assms have "[0..<nat n] \<noteq> []" by simp
  then have "cirq_measure (named_qubit_range n) ''bob_key'' = Inr (Measure [0..<nat n] ''bob_key'')"
    by (simp add: cirq_measure_def named_qubit_range_def py_range_def)
  then show ?thesis
    unfolding bob_circuit_def bob_gates_ok by simp
qed

lemma bob_circuit_empty:
  assumes "n \<le> 0"
  shows "bob_circuit n (choices [X, Z] n bd) (named_qubit_range n) = Inl ValueError"
proof -
  from assms have "cirq_measure (named_qubit_range n) ''bob_key'' = Inl ValueError"
    by (simp add: cirq_measure_def named_qubit_range_def py_range_def)
  then show ?thesis
    unfolding bob_circuit_def bob_gates_ok by simp
qed

lemma bb84_circuit_ok:
  assumes "1 \<le> n"
  shows "bb84_circuit n d = Inr (prepared_gates (nat n) d @ [Measure [0..<nat n] ''bob_key''])"
  unfolding bb84_circuit_def Let_def alice_cirquit_ok bob_circuit_ok [OF assms]
  by (simp add: prepared_gates_def)

lemma bb84_circuit_empty:
  assumes "n \<le> 0"
  shows "bb84_circuit n d = Inl ValueError"
  unfolding bb84_circuit_def Let_def alice_cirquit_ok bob_circuit_empty [OF assms]
  by simp

section \<open>The simulation of the combined circuit\<close>

lemma fold_gates:
  "list_all is_gate c \<Longrightarrow>
   state_vector (fold (sim_step u) c s) q = fold apply_gate (gates_on q c) (state_vector s q) \<and>
   measurements (fold (sim_step u) c s) = measurements s"
proof (induction c arbitrary: s)
  case Nil
  then show ?case by simp
next
  case (Cons x c)
  then show ?case by (cases x) simp_all
qed

lemma gates_on_append: "gates_on q (c1 @ c2) = gates_on q c1 @ gates_on q c2"
  by (induction q c1 rule: gates_on.induct) simp_all

lemma gates_on_alice:
  "gates_on q (concat (map (\<lambda>i. [Gate (e i) i, Gate (b i) i]) [0..<m])) =
   (if q < m then [e q, b q] else [])"
  by (induction m) (auto simp: gates_on_append)

lemma gates_on_bob:
  "gates_on q (map (\<lambda>i. Gate (b i) i) [0..<m]) = (if q < m then [b q] else [])"
  by (induction m) (auto simp: gates_on_append)

lemma prepared_gates_all_gates: "list_all is_gate (prepared_gates m d)"
  by (simp add: prepared_gates_def list_all_iff) auto

lemma gates_on_prepared:
  "q < m \<Longrightarrow> gates_on q (prepared_gates m d) =
    [encode_gate_of (key_draw d q), basis_gate_of (alice_basis_draw d q),
     basis_gate_of (bob_basis_draw d q)]"
  by (simp add: prepared_gates_def gates_on_append gates_on_alice gates_on_bob)

lemma state_after_prepared:
  "q < m \<Longrightarrow> state_vector (fold (sim_step u) (prepared_gates m d) sim_init) q = qubit_at_bob d q"
  using fold_gates [OF prepared_gates_all_gates, of u m d sim_init q]
  by (simp add: gates_on_prepared qubit_at_bob_def sim_init_def)

lemma state_at_measurement_bb84:
  "q < m \<Longrightarrow>
   state_at_measurement (prepared_gates m d @ [Measure qs key]) q = qubit_at_bob d q"
proof -
  have "takeWhile is_gate (prepared_gates m d @ [Measure qs key]) = prepared_gates m d"
    using prepared_gates_all_gates [of m d]
    by (simp add: list_all_iff takeWhile_append2)
  then show "q < m \<Longrightarrow> ?thesis"
    by (simp add: state_at_measurement_def state_after_prepared)
qed

lemma simulator_run_bb84:
  "measurements (simulator_run (prepared_gates m d @ [Measure [0..<m] key]) u) key =
   Some (map (\<lambda>q. measure_qubit (qubit_at_bob d q) (u q)) [0..<m])"
  by (simp add: simulator_run_def state_after_prepared)

lemma transmit_ok:
  assumes "1 \<le> n"
  shows "transmit n d =
         Inr (choices [0, 1] n (key_draw d), choices [X, Z] n (alice_basis_draw d),
              choices [X, Z] n (bob_basis_draw d), map (bob_bit d) [0..<nat n])"
  unfolding transmit_def bb84_circuit_ok [OF assms] Let_def
  by (simp add: dict_get_def simulator_run_bb84 bob_bit_def)

lemma transmit_empty:
  assumes "n \<le> 0"
  shows "transmit n d = Inl ValueError"
  unfolding transmit_def bb84_circuit_empty [OF assms] by simp

lemma transmit_lengths:
  assumes "transmit n d = Inr (ak, ab, bb, bk)"
  shows "length ak = nat n \<and> length ab = nat n \<and> length bb = nat n \<and> length bk = nat n"
proof (cases "1 \<le> n")
  case True
  from assms show ?thesis
    unfolding transmit_ok [OF True] by (auto simp: length_choices)
next
  case False
  then have "n \<le> 0" by simp
  from assms show ?thesis
    unfolding transmit_empty [OF \<open>n \<le> 0\<close>] by simp
qed

section \<open>Encoding and measuring one qubit\<close>

lemma hadamard_twice: "apply_gate cirq_H (apply_gate cirq_H s) = s"
proof (cases s)
  case (Pair a b)
  have "(a + b) / sqrt 2 + (a - b) / sqrt 2 = 2 * a / sqrt 2"
    by (simp add: field_simps)
  moreover have "(a + b) / sqrt 2 - (a - b) / sqrt 2 = 2 * b / sqrt 2"
    by (simp add: field_simps)
  moreover have "2 * x / sqrt 2 / sqrt 2 = x" for x :: real
    by simp
  ultimately show ?thesis using Pair by simp
qed

lemma identity_gate: "apply_gate cirq_I s = s"
  by (cases s) simp

lemma basis_gate_twice: "apply_gate (basis_gate_of c) (apply_gate (basis_gate_of c) s) = s"
  by (simp add: basis_gate_of_def hadamard_twice identity_gate)

lemma qubit_at_bob_same:
  "alice_basis_draw d q = bob_basis_draw d q \<Longrightarrow>
   qubit_at_bob d q = collapse (bit_of (key_draw d q))"
  by (simp add: qubit_at_bob_def basis_gate_twice encode_gate_of_def collapse_def bit_of_def)

lemma measure_collapse:
  "0 \<le> u \<Longrightarrow> u < 1 \<Longrightarrow> measure_qubit (collapse (bit_of b)) u = bit_of b"
  by (simp add: measure_qubit_def collapse_def bit_of_def)

lemma qubit_at_bob_differ:
  "alice_basis_draw d q \<noteq> bob_basis_draw d q \<Longrightarrow>
   prob (qubit_at_bob d q) 0 = 1 / 2 \<and> prob (qubit_at_bob d q) 1 = 1 / 2"
  by (cases "alice_basis_draw d q"; cases "bob_basis_draw d q"; cases "key_draw d q")
     (simp_all add: qubit_at_bob_def basis_gate_of_def encode_gate_of_def power_divide)

lemma bob_bit_same:
  "alice_basis_draw d q = bob_basis_draw d q \<Longrightarrow> 0 \<le> measure_draw d q \<Longrightarrow>
   measure_draw d q < 1 \<Longrightarrow> bob_bit d q = bit_of (key_draw d q)"
  by (simp add: bob_bit_def qubit_at_bob_same measure_collapse)

lemma bob_bit_differ:
  assumes "alice_basis_draw d q \<noteq> bob_basis_draw d q"
  shows "bob_bit d q = (if measure_draw d q < 1 / 2 then 0 else 1)"
  using qubit_at_bob_differ [OF assms] by (simp add: bob_bit_def measure_qubit_def)

section \<open>Reconciliation and the integrity check\<close>

lemma for_each_sift:
  "(\<And>i keys. i \<in> set ns \<Longrightarrow>
      body i keys = Inr (if P i then (fst keys @ [f i], snd keys @ [g i]) else keys)) \<Longrightarrow>
   for_each ns body (xs, ys) =
     Inr (xs @ map f (filter P ns), ys @ map g (filter P ns))"
  by (induction ns arbitrary: xs ys) simp_all

lemma reconcile_step_ok:
  assumes "i < length ak" "i < length ab" "i < length bb" "i < length bk"
  shows "reconcile_step ak ab bb bk i keys =
         Inr (if ab ! i = bb ! i then (fst keys @ [ak ! i], snd keys @ [bk ! i]) else keys)"
  using assms by (simp add: reconcile_step_def getitem_def)

lemma reconcile_ok:
  assumes "length ak = nat n" "length ab = nat n" "length bb = nat n" "length bk = nat n"
  shows "reconcile n ak ab bb bk =
         Inr (map (\<lambda>i. ak ! i) (matching_indices n ab bb),
              map (\<lambda>i. bk ! i) (matching_indices n ab bb))"
proof -
  have "for_each (py_range n) (reconcile_step ak ab bb bk) ([], []) =
        Inr ([] @ map (\<lambda>i. ak ! i) (filter (\<lambda>i. ab ! i = bb ! i) (py_range n)),
             [] @ map (\<lambda>i. bk ! i) (filter (\<lambda>i. ab ! i = bb ! i) (py_range n)))"
  proof (rule for_each_sift)
    fix i keys
    assume "i \<in> set (py_range n)"
    then have "i < nat n" by (simp add: py_range_def)
    with assms show "reconcile_step ak ab bb bk i keys =
        Inr (if ab ! i = bb ! i then (fst keys @ [ak ! i], snd keys @ [bk ! i]) else keys)"
      by (simp add: reconcile_step_ok)
  qed
  then show ?thesis
    by (simp add: reconcile_def matching_indices_def)
qed

lemma length_matching_indices:
  "length (matching_indices n ab bb) = card {i. i < nat n \<and> ab ! i = bb ! i}"
proof -
  have "distinct (matching_indices n ab bb)"
    by (simp add: matching_indices_def py_range_def)
  then have "length (matching_indices n ab bb) = card (set (matching_indices n ab bb))"
    by (simp add: distinct_card)
  moreover have "set (matching_indices n ab bb) = {i. i < nat n \<and> ab ! i = bb ! i}"
    by (auto simp: matching_indices_def py_range_def)
  ultimately show ?thesis by simp
qed

lemma sorted_matching_indices: "sorted_wrt (<) (matching_indices n ab bb)"
  by (simp add: matching_indices_def py_range_def sorted_wrt_filter)

lemma matching_indices_draws:
  "matching_indices n (choices [X, Z] n ad) (choices [X, Z] n bd) =
   filter (\<lambda>i. ad i = bd i) [0..<nat n]"
  unfolding matching_indices_def py_range_def
  by (rule filter_cong) (simp_all add: nth_bases)

lemma integrity_check_empty: "integrity_check [] sb = Inl IndexError"
  by (simp add: integrity_check_def getitem_def)

lemma integrity_check_equal:
  "sa \<noteq> [] \<Longrightarrow> sb \<noteq> [] \<Longrightarrow> hd sa = hd sb \<Longrightarrow>
   integrity_check sa sb = Inr (tl sa, tl sb, Secure (tl sa) (tl sb))"
  by (cases sa; cases sb) (simp_all add: integrity_check_def getitem_def)

lemma integrity_check_differ:
  "sa \<noteq> [] \<Longrightarrow> sb \<noteq> [] \<Longrightarrow> hd sa \<noteq> hd sb \<Longrightarrow>
   integrity_check sa sb = Inr (sa, sb, Compromised)"
  by (cases sa; cases sb) (simp_all add: integrity_check_def getitem_def)

lemma bb84_unfold:
  assumes "1 \<le> n"
  shows "bb84 n d =
    (case integrity_check
            (map (\<lambda>i. choices [0, 1] n (key_draw d) ! i)
               (matching_indices n (choices [X, Z] n (alice_basis_draw d))
                  (choices [X, Z] n (bob_basis_draw d))))
            (map (\<lambda>i. map (bob_bit d) [0..<nat n] ! i)
               (matching_indices n (choices [X, Z] n (alice_basis_draw d))
                  (choices [X, Z] n (bob_basis_draw d)))) of
       Inl e \<Rightarrow> Inl e
     | Inr (fa, fb, r) \<Rightarrow>
         Inr \<lparr>alice_key = choices [0, 1] n (key_draw d),
              alice_bases = choices [X, Z] n (alice_basis_draw d),
              bob_bases = choices [X, Z] n (bob_basis_draw d),
              bob_key = map (bob_bit d) [0..<nat n],
              sifted_alice = map (\<lambda>i. choices [0, 1] n (key_draw d) ! i)
                 (matching_indices n (choices [X, Z] n (alice_basis_draw d))
                    (choices [X, Z] n (bob_basis_draw d))),
              sifted_bob = map (\<lambda>i. map (bob_bit d) [0..<nat n] ! i)
                 (matching_indices n (choices [X, Z] n (alice_basis_draw d))
                    (choices [X, Z] n (bob_basis_draw d))),
              final_alice_key = fa, final_bob_key = fb, printed = r\<rparr>)"
proof -
  have r: "reconcile n (choices [0, 1] n (key_draw d)) (choices [X, Z] n (alice_basis_draw d))
             (choices [X, Z] n (bob_basis_draw d)) (map (bob_bit d) [0..<nat n]) =
           Inr (map (\<lambda>i. choices [0, 1] n (key_draw d) ! i)
                  (matching_indices n (choices [X, Z] n (alice_basis_draw d))
                     (choices [X, Z] n (bob_basis_draw d))),
                map (\<lambda>i. map (bob_bit d) [0..<nat n] ! i)
                  (matching_indices n (choices [X, Z] n (alice_basis_draw d))
                     (choices [X, Z] n (bob_basis_draw d))))"
    by (rule reconcile_ok) (simp_all add: length_choices)
  show ?thesis
    unfolding bb84_def transmit_ok [OF assms] by (simp only: prod.case sum.case r)
qed

lemma bb84_empty: "n \<le> 0 \<Longrightarrow> bb84 n d = Inl ValueError"
  by (simp add: bb84_def transmit_empty)

lemma sifted_agree:
  assumes "valid_draws n d"
  shows "map (\<lambda>i. map (bob_bit d) [0..<nat n] ! i)
           (matching_indices n (choices [X, Z] n (alice_basis_draw d))
              (choices [X, Z] n (bob_basis_draw d))) =
         map (\<lambda>i. choices [0, 1] n (key_draw d) ! i)
           (matching_indices n (choices [X, Z] n (alice_basis_draw d))
              (choices [X, Z] n (bob_basis_draw d)))"
  unfolding matching_indices_draws
proof (rule map_cong [OF refl])
  fix i
  assume "i \<in> set (filter (\<lambda>i. alice_basis_draw d i = bob_basis_draw d i) [0..<nat n])"
  then have i: "i < nat n" and same: "alice_basis_draw d i = bob_basis_draw d i"
    by simp_all
  from assms i have "0 \<le> measure_draw d i" "measure_draw d i < 1"
    by (simp_all add: valid_draws_def)
  with same have "bob_bit d i = bit_of (key_draw d i)"
    by (simp add: bob_bit_same)
  moreover from i have "choices [0, 1] n (key_draw d) ! i = bit_of (key_draw d i)"
    by (rule nth_key)
  moreover from i have "map (bob_bit d) [0..<nat n] ! i = bob_bit d i"
    by simp
  ultimately show "map (bob_bit d) [0..<nat n] ! i = choices [0, 1] n (key_draw d) ! i"
    by (simp only:)
qed

section \<open>The recorded execution\<close>

lemma choices_notebook_key:
  "choices [0, 1] 10 (key_draw (notebook_run u)) = [0, 0, 0, 1, 0, 0, 0, 1, 0, 1 :: nat]"
  unfolding notebook_run_def draws.simps by code_simp

lemma choices_notebook_alice:
  "choices [X, Z] 10 (alice_basis_draw (notebook_run u)) = [X, Z, X, Z, Z, Z, X, Z, X, Z]"
  unfolding notebook_run_def draws.simps by code_simp

lemma choices_notebook_bob:
  "choices [X, Z] 10 (bob_basis_draw (notebook_run u)) = [X, Z, X, X, Z, X, X, Z, Z, Z]"
  unfolding notebook_run_def draws.simps by code_simp

section \<open>Whole runs\<close>

lemma bb84_secure:
  assumes "1 \<le> n" and "valid_draws n d" and "sifted_draws n d \<noteq> []"
  shows "bb84 n d =
         Inr \<lparr>alice_key = choices [0, 1] n (key_draw d),
              alice_bases = choices [X, Z] n (alice_basis_draw d),
              bob_bases = choices [X, Z] n (bob_basis_draw d),
              bob_key = map (bob_bit d) [0..<nat n],
              sifted_alice = sifted_draws n d, sifted_bob = sifted_draws n d,
              final_alice_key = tl (sifted_draws n d), final_bob_key = tl (sifted_draws n d),
              printed = Secure (tl (sifted_draws n d)) (tl (sifted_draws n d))\<rparr>"
proof -
  have "integrity_check (sifted_draws n d) (sifted_draws n d) =
        Inr (tl (sifted_draws n d), tl (sifted_draws n d),
             Secure (tl (sifted_draws n d)) (tl (sifted_draws n d)))"
    using assms(3) by (simp add: integrity_check_equal)
  then show ?thesis
    unfolding bb84_unfold [OF assms(1)] sifted_agree [OF assms(2)] sifted_draws_def [symmetric]
    by simp
qed

lemma bb84_no_match:
  assumes "1 \<le> n" and "sifted_draws n d = []"
  shows "bb84 n d = Inl IndexError"
proof -
  from assms(2) have "matching_indices n (choices [X, Z] n (alice_basis_draw d))
          (choices [X, Z] n (bob_basis_draw d)) = []"
    by (simp add: sifted_draws_def)
  then show ?thesis
    unfolding bb84_unfold [OF assms(1)] by (simp add: integrity_check_empty)
qed

lemma sifted_draws_empty_iff:
  "(sifted_draws n d = []) = (\<forall>i<nat n. alice_basis_draw d i \<noteq> bob_basis_draw d i)"
  by (auto simp: sifted_draws_def matching_indices_draws filter_empty_conv)

lemma bb84_ends_with_integrity_check:
  assumes "bb84 n d = Inr s"
  shows "transmit n d = Inr (alice_key s, alice_bases s, bob_bases s, bob_key s) \<and>
         reconcile n (alice_key s) (alice_bases s) (bob_bases s) (bob_key s) =
           Inr (sifted_alice s, sifted_bob s) \<and>
         integrity_check (sifted_alice s) (sifted_bob s) =
           Inr (final_alice_key s, final_bob_key s, printed s)"
  using assms by (auto simp: bb84_def split: sum.splits prod.splits)

lemma bb84_completes:
  assumes "1 \<le> n" and "i < nat n" and "alice_basis_draw d i = bob_basis_draw d i"
  shows "\<exists>s. bb84 n d = Inr s \<and>
           (printed s = Compromised \<or> printed s = Secure (final_alice_key s) (final_bob_key s))"
proof -
  define mi where "mi = matching_indices n (choices [X, Z] n (alice_basis_draw d))
      (choices [X, Z] n (bob_basis_draw d))"
  have "i \<in> set mi"
    unfolding mi_def matching_indices_draws using assms(2,3) by simp
  then have ne: "mi \<noteq> []" by auto
  define sa :: "nat list" where "sa = map (\<lambda>i. choices [0, 1] n (key_draw d) ! i) mi"
  define sb where "sb = map (\<lambda>i. map (bob_bit d) [0..<nat n] ! i) mi"
  from ne have "sa \<noteq> []" "sb \<noteq> []" by (simp_all add: sa_def sb_def)
  then have "integrity_check sa sb = Inr (sa, sb, Compromised) \<or>
             integrity_check sa sb = Inr (tl sa, tl sb, Secure (tl sa) (tl sb))"
    using integrity_check_equal [of sa sb] integrity_check_differ [of sa sb] by blast
  then show ?thesis
    unfolding bb84_unfold [OF assms(1)] mi_def [symmetric] sa_def [symmetric] sb_def [symmetric]
    by auto
qed

section \<open>Changing one of Alice's bits\<close>

lemma prob_collapse_bit: "prob (collapse (bit_of b)) (bit_of b) = 1"
  by (simp add: collapse_def bit_of_def)

lemma key_draw_flip:
  "key_draw (flip_alice_bit i d) q = (if q = i then \<not> key_draw d i else key_draw d q)"
  by (simp add: flip_alice_bit_def)

lemma basis_draw_flip:
  "alice_basis_draw (flip_alice_bit i d) = alice_basis_draw d"
  "bob_basis_draw (flip_alice_bit i d) = bob_basis_draw d"
  "measure_draw (flip_alice_bit i d) = measure_draw d"
  by (simp_all add: flip_alice_bit_def)

lemma bob_bit_flip:
  assumes "alice_basis_draw d i \<noteq> bob_basis_draw d i"
  shows "bob_bit (flip_alice_bit i d) q = bob_bit d q"
proof (cases "q = i")
  case True
  with assms show ?thesis
    by (simp add: bob_bit_differ basis_draw_flip)
next
  case False
  then show ?thesis
    by (simp add: bob_bit_def qubit_at_bob_def basis_draw_flip key_draw_flip)
qed

lemma choices_key_map:
  "choices [0, 1 :: nat] n kd = map (\<lambda>j. bit_of (kd j)) [0..<nat n]"
  by (simp add: choices_def bit_of_def)

lemma choices_key_flip:
  assumes "i < nat n"
  shows "choices [0, 1 :: nat] n (key_draw (flip_alice_bit i d)) =
         (choices [0, 1] n (key_draw d))[i := 1 - choices [0, 1] n (key_draw d) ! i]"
  unfolding choices_key_map using assms
  by (intro nth_equalityI) (simp_all add: nth_list_update key_draw_flip bit_of_def)

section \<open>Evaluating the concrete executions\<close>

lemma upt_ten: "[0..<nat 10] = [0, 1, 2, 3, 4, 5, 6, 7, 8, 9]"
  by code_simp

lemma bob_bit_eval:
  assumes "0 \<le> measure_draw d q" and "measure_draw d q < 1"
  shows "bob_bit d q =
         (if alice_basis_draw d q = bob_basis_draw d q then bit_of (key_draw d q)
          else if measure_draw d q < 1 / 2 then 0 else 1)"
  using assms by (simp add: bob_bit_same bob_bit_differ)

lemma valid_three_quarters: "valid_draws n (notebook_run three_quarters)"
  by (simp add: valid_draws_def notebook_run_def three_quarters_def)

lemma valid_one_quarter: "valid_draws n (notebook_run one_quarter)"
  by (simp add: valid_draws_def notebook_run_def one_quarter_def)

lemma bob_key_notebook:
  "map (bob_bit (notebook_run three_quarters)) [0..<nat 10] = [0, 0, 0, 1, 0, 1, 0, 1, 1, 1]"
proof -
  have "bob_bit (notebook_run three_quarters) q =
        (if alice_basis_draw (notebook_run three_quarters) q =
            bob_basis_draw (notebook_run three_quarters) q
         then bit_of (key_draw (notebook_run three_quarters) q) else 1)" for q
    by (simp add: bob_bit_eval notebook_run_def three_quarters_def)
  then show ?thesis
    unfolding upt_ten
    by (simp add: notebook_run_def draw_list_def bit_of_def)
qed

lemma transmit_notebook:
  "transmit 10 (notebook_run three_quarters) =
   Inr ([0, 0, 0, 1, 0, 0, 0, 1, 0, 1], [X, Z, X, Z, Z, Z, X, Z, X, Z],
        [X, Z, X, X, Z, X, X, Z, Z, Z], [0, 0, 0, 1, 0, 1, 0, 1, 1, 1])"
proof -
  have "(1::int) \<le> 10" by simp
  then show ?thesis
    unfolding transmit_ok [OF \<open>(1::int) \<le> 10\<close>] choices_notebook_key choices_notebook_alice
      choices_notebook_bob bob_key_notebook
    by simp
qed

lemma bob_key_notebook_low:
  "map (bob_bit (notebook_run one_quarter)) [0..<nat 10] = [0, 0, 0, 0, 0, 0, 0, 1, 0, 1]"
proof -
  have "bob_bit (notebook_run one_quarter) q =
        (if alice_basis_draw (notebook_run one_quarter) q =
            bob_basis_draw (notebook_run one_quarter) q
         then bit_of (key_draw (notebook_run one_quarter) q) else 0)" for q
    by (simp add: bob_bit_eval notebook_run_def one_quarter_def)
  then show ?thesis
    unfolding upt_ten
    by (simp add: notebook_run_def draw_list_def bit_of_def)
qed

lemma transmit_notebook_low:
  "transmit 10 (notebook_run one_quarter) =
   Inr ([0, 0, 0, 1, 0, 0, 0, 1, 0, 1], [X, Z, X, Z, Z, Z, X, Z, X, Z],
        [X, Z, X, X, Z, X, X, Z, Z, Z], [0, 0, 0, 0, 0, 0, 0, 1, 0, 1])"
proof -
  have "(1::int) \<le> 10" by simp
  then show ?thesis
    unfolding transmit_ok [OF \<open>(1::int) \<le> 10\<close>] choices_notebook_key choices_notebook_alice
      choices_notebook_bob bob_key_notebook_low
    by simp
qed

lemma bb84_circuit_notebook:
  "bb84_circuit 10 (notebook_run u) =
   Inr (prepared_gates (nat 10) (notebook_run u) @ [Measure [0..<nat 10] ''bob_key''])"
  by (rule bb84_circuit_ok) simp

lemma matching_notebook:
  "matching_indices 10 [X, Z, X, Z, Z, Z, X, Z, X, Z] [X, Z, X, X, Z, X, X, Z, Z, Z] =
   [0, 1, 2, 4, 6, 7, 9]"
  by code_simp

lemma sifted_notebook: "sifted_draws 10 (notebook_run u) = [0, 0, 0, 0, 0, 1, 1]"
  unfolding sifted_draws_def choices_notebook_key choices_notebook_alice choices_notebook_bob
    matching_notebook
  by simp

lemma bb84_notebook:
  assumes "valid_draws 10 (notebook_run u)"
  shows "bb84 10 (notebook_run u) =
         Inr \<lparr>alice_key = [0, 0, 0, 1, 0, 0, 0, 1, 0, 1],
              alice_bases = [X, Z, X, Z, Z, Z, X, Z, X, Z],
              bob_bases = [X, Z, X, X, Z, X, X, Z, Z, Z],
              bob_key = map (bob_bit (notebook_run u)) [0..<nat 10],
              sifted_alice = [0, 0, 0, 0, 0, 1, 1], sifted_bob = [0, 0, 0, 0, 0, 1, 1],
              final_alice_key = [0, 0, 0, 0, 1, 1], final_bob_key = [0, 0, 0, 0, 1, 1],
              printed = Secure [0, 0, 0, 0, 1, 1] [0, 0, 0, 0, 1, 1]\<rparr>"
proof -
  have "(1::int) \<le> 10" by simp
  moreover have "sifted_draws 10 (notebook_run u) \<noteq> []"
    by (simp add: sifted_notebook)
  ultimately show ?thesis
    using bb84_secure [of 10 "notebook_run u"] assms
    unfolding sifted_notebook choices_notebook_key choices_notebook_alice choices_notebook_bob
    by simp
qed

lemma sifted_mismatched: "sifted_draws n mismatched_run = []"
  by (simp add: sifted_draws_empty_iff mismatched_run_def)

section \<open>The claims\<close>

text \<open>
  C9. Whenever the sifted keys are not empty and their first elements differ, the
  integrity check ends in the branch that reports eavesdropping, and that report
  carries no key.
\<close>

theorem compromised_when_first_bits_differ:
  assumes "sa \<noteq> []" and "sb \<noteq> []" and "hd sa \<noteq> hd sb"
  shows "\<exists>fa fb. integrity_check sa sb = Inr (fa, fb, Compromised)"
  using assms by (simp add: integrity_check_differ)

theorem compromised_when_first_bits_differ_witness:
  "[0, 1, 1] \<noteq> ([] :: nat list) \<and> [1, 1, 1] \<noteq> ([] :: nat list) \<and>
   hd [0, 1, 1 :: nat] \<noteq> hd [1, 1, 1 :: nat] \<and>
   (\<exists>fa fb. integrity_check [0, 1, 1] [1, 1, 1] = Inr (fa, fb, Compromised))"
  using compromised_when_first_bits_differ [of "[0, 1, 1]" "[1, 1, 1]"] by simp

text \<open>
  C10. In the branch that reports eavesdropping the integrity check leaves both
  lists as they were: \<^verbatim>\<open>final_alice_key\<close> and \<^verbatim>\<open>final_bob_key\<close> still hold the
  whole sifted keys, the differing first bit included.
\<close>

theorem compromised_keeps_sifted_keys:
  assumes "sa \<noteq> []" and "sb \<noteq> []" and "hd sa \<noteq> hd sb"
  shows "\<exists>r. integrity_check sa sb = Inr (sa, sb, r)"
  using assms by (simp add: integrity_check_differ)

theorem compromised_keeps_sifted_keys_witness:
  "[1, 0] \<noteq> ([] :: nat list) \<and> [0, 0] \<noteq> ([] :: nat list) \<and>
   hd [1, 0 :: nat] \<noteq> hd [0, 0 :: nat] \<and>
   (\<exists>r. integrity_check [1, 0] [0, 0] = Inr ([1, 0], [0, 0], r))"
  using compromised_keeps_sifted_keys [of "[1, 0]" "[0, 0]"] by simp

text \<open>
  C1. In every execution whose measurement draws are uniform samples, a run that ends
  with the message that the keys can be used leaves equal final keys for Alice and
  Bob, prints those keys, and each final key is one element shorter than the sifted
  key, which is not empty.
\<close>

theorem secure_keys_equal:
  assumes "bb84 n d = Inr s" and "valid_draws n d" and "printed s = Secure ka kb"
  shows "final_alice_key s = final_bob_key s \<and>
         ka = final_alice_key s \<and> kb = final_bob_key s \<and>
         sifted_alice s \<noteq> [] \<and>
         length (final_alice_key s) = length (sifted_alice s) - 1 \<and>
         length (final_bob_key s) = length (sifted_bob s) - 1"
proof -
  have n: "1 \<le> n"
  proof (rule ccontr)
    assume "\<not> 1 \<le> n"
    then have "bb84 n d = Inl ValueError" by (simp add: bb84_empty)
    with assms(1) show False by simp
  qed
  have ne: "sifted_draws n d \<noteq> []"
  proof
    assume "sifted_draws n d = []"
    with n have "bb84 n d = Inl IndexError" by (rule bb84_no_match)
    with assms(1) show False by simp
  qed
  from assms(1) have "s = \<lparr>alice_key = choices [0, 1] n (key_draw d),
              alice_bases = choices [X, Z] n (alice_basis_draw d),
              bob_bases = choices [X, Z] n (bob_basis_draw d),
              bob_key = map (bob_bit d) [0..<nat n],
              sifted_alice = sifted_draws n d, sifted_bob = sifted_draws n d,
              final_alice_key = tl (sifted_draws n d), final_bob_key = tl (sifted_draws n d),
              printed = Secure (tl (sifted_draws n d)) (tl (sifted_draws n d))\<rparr>"
    unfolding bb84_secure [OF n assms(2) ne] by simp
  with assms(3) ne show ?thesis by auto
qed

theorem secure_keys_equal_witness:
  "bb84 10 (notebook_run three_quarters) =
     Inr \<lparr>alice_key = [0, 0, 0, 1, 0, 0, 0, 1, 0, 1],
          alice_bases = [X, Z, X, Z, Z, Z, X, Z, X, Z],
          bob_bases = [X, Z, X, X, Z, X, X, Z, Z, Z],
          bob_key = [0, 0, 0, 1, 0, 1, 0, 1, 1, 1],
          sifted_alice = [0, 0, 0, 0, 0, 1, 1], sifted_bob = [0, 0, 0, 0, 0, 1, 1],
          final_alice_key = [0, 0, 0, 0, 1, 1], final_bob_key = [0, 0, 0, 0, 1, 1],
          printed = Secure [0, 0, 0, 0, 1, 1] [0, 0, 0, 0, 1, 1]\<rparr> \<and>
   valid_draws 10 (notebook_run three_quarters) \<and>
   length [0, 0, 0, 0, 1, 1 :: nat] = length [0, 0, 0, 0, 0, 1, 1 :: nat] - 1"
proof -
  have run: "bb84 10 (notebook_run three_quarters) =
     Inr \<lparr>alice_key = [0, 0, 0, 1, 0, 0, 0, 1, 0, 1],
          alice_bases = [X, Z, X, Z, Z, Z, X, Z, X, Z],
          bob_bases = [X, Z, X, X, Z, X, X, Z, Z, Z],
          bob_key = [0, 0, 0, 1, 0, 1, 0, 1, 1, 1],
          sifted_alice = [0, 0, 0, 0, 0, 1, 1], sifted_bob = [0, 0, 0, 0, 0, 1, 1],
          final_alice_key = [0, 0, 0, 0, 1, 1], final_bob_key = [0, 0, 0, 0, 1, 1],
          printed = Secure [0, 0, 0, 0, 1, 1] [0, 0, 0, 0, 1, 1]\<rparr>"
    using bb84_notebook [OF valid_three_quarters] unfolding bob_key_notebook .
  have "printed \<lparr>alice_key = [0, 0, 0, 1, 0, 0, 0, 1, 0, 1],
          alice_bases = [X, Z, X, Z, Z, Z, X, Z, X, Z],
          bob_bases = [X, Z, X, X, Z, X, X, Z, Z, Z],
          bob_key = [0, 0, 0, 1, 0, 1, 0, 1, 1, 1],
          sifted_alice = [0, 0, 0, 0, 0, 1, 1], sifted_bob = [0, 0, 0, 0, 0, 1, 1],
          final_alice_key = [0, 0, 0, 0, 1, 1], final_bob_key = [0, 0, 0, 0, 1, 1],
          printed = Secure [0, 0, 0, 0, 1, 1] [0, 0, 0, 0, 1, 1]\<rparr> =
        Secure [0, 0, 0, 0, 1, 1] [0, 0, 0, 0, 1, 1]"
    by simp
  from secure_keys_equal [OF run valid_three_quarters this] run valid_three_quarters
  show ?thesis by simp
qed

text \<open>
  C2. At every qubit index where Alice's basis equals Bob's, the state that reaches
  the measurement gives Alice's bit with probability 1, and the bit Bob reads is
  Alice's bit, whatever uniform sample the simulator draws.
\<close>

theorem matching_basis_recovers_bit:
  assumes "transmit n d = Inr (ak, ab, bb, bk)" and "bb84_circuit n d = Inr c"
    and "i < nat n" and "ab ! i = bb ! i"
    and "0 \<le> measure_draw d i" and "measure_draw d i < 1"
  shows "bk ! i = ak ! i \<and> prob (state_at_measurement c i) (ak ! i) = 1"
proof -
  from assms(3) have n: "1 \<le> n" by simp
  from assms(1) have ak: "ak = choices [0, 1] n (key_draw d)"
    and ab: "ab = choices [X, Z] n (alice_basis_draw d)"
    and bb: "bb = choices [X, Z] n (bob_basis_draw d)"
    and bk: "bk = map (bob_bit d) [0..<nat n]"
    unfolding transmit_ok [OF n] by simp_all
  from assms(2) have c: "c = prepared_gates (nat n) d @ [Measure [0..<nat n] ''bob_key'']"
    unfolding bb84_circuit_ok [OF n] by simp
  from assms(4) have same: "alice_basis_draw d i = bob_basis_draw d i"
    unfolding ab bb using bases_agree_iff [OF assms(3)] by simp
  have aki: "ak ! i = bit_of (key_draw d i)"
    unfolding ak using assms(3) by (rule nth_key)
  have "bk ! i = bob_bit d i"
    unfolding bk using assms(3) by simp
  also have "\<dots> = bit_of (key_draw d i)"
    using same assms(5,6) by (rule bob_bit_same)
  finally have "bk ! i = ak ! i" using aki by simp
  moreover have "state_at_measurement c i = collapse (bit_of (key_draw d i))"
    unfolding c using assms(3) same by (simp add: state_at_measurement_bb84 qubit_at_bob_same)
  ultimately show ?thesis
    using aki by (simp add: prob_collapse_bit)
qed

theorem matching_basis_recovers_bit_witness:
  "[0, 0, 0, 1, 0, 1, 0, 1, 1, 1] ! 7 = [0, 0, 0, 1, 0, 0, 0, 1, 0, 1 :: nat] ! 7 \<and>
   prob (state_at_measurement
           (prepared_gates (nat 10) (notebook_run three_quarters) @
            [Measure [0..<nat 10] ''bob_key'']) 7) 1 = 1"
proof -
  have "(7::nat) < nat 10" by simp
  moreover have "[X, Z, X, Z, Z, Z, X, Z, X, Z] ! 7 = [X, Z, X, X, Z, X, X, Z, Z, Z] ! 7"
    by simp
  moreover have "0 \<le> measure_draw (notebook_run three_quarters) 7"
    and "measure_draw (notebook_run three_quarters) 7 < 1"
    by (simp_all add: notebook_run_def three_quarters_def)
  ultimately show ?thesis
    using matching_basis_recovers_bit [OF transmit_notebook bb84_circuit_notebook, of 7]
    by simp
qed

text \<open>
  C3. At every qubit index where the bases differ, Bob reads 0 and 1 with probability
  one half each, for either value of Alice's bit. The bit he reads is decided by the
  uniform sample of the measurement alone: it is 0 exactly when the sample lies below
  one half. Changing Alice's bit at that index, with all draws unchanged otherwise,
  leaves every bit that Bob reads as it was.
\<close>

theorem mismatched_basis_is_fair_coin:
  assumes "transmit n d = Inr (ak, ab, bb, bk)" and "bb84_circuit n d = Inr c"
    and "i < nat n" and "ab ! i \<noteq> bb ! i"
  shows "prob (state_at_measurement c i) 0 = 1 / 2 \<and>
         prob (state_at_measurement c i) 1 = 1 / 2 \<and>
         (\<exists>c'. bb84_circuit n (flip_alice_bit i d) = Inr c' \<and>
               prob (state_at_measurement c' i) 0 = 1 / 2 \<and>
               prob (state_at_measurement c' i) 1 = 1 / 2) \<and>
         bk ! i = (if measure_draw d i < 1 / 2 then 0 else 1) \<and>
         transmit n (flip_alice_bit i d) = Inr (ak[i := 1 - ak ! i], ab, bb, bk)"
proof -
  from assms(3) have n: "1 \<le> n" by simp
  from assms(1) have ak: "ak = choices [0, 1] n (key_draw d)"
    and ab: "ab = choices [X, Z] n (alice_basis_draw d)"
    and bb: "bb = choices [X, Z] n (bob_basis_draw d)"
    and bk: "bk = map (bob_bit d) [0..<nat n]"
    unfolding transmit_ok [OF n] by simp_all
  from assms(2) have c: "c = prepared_gates (nat n) d @ [Measure [0..<nat n] ''bob_key'']"
    unfolding bb84_circuit_ok [OF n] by simp
  from assms(4) have differ: "alice_basis_draw d i \<noteq> bob_basis_draw d i"
    unfolding ab bb using bases_agree_iff [OF assms(3)] by simp
  then have differ': "alice_basis_draw (flip_alice_bit i d) i \<noteq>
      bob_basis_draw (flip_alice_bit i d) i"
    by (simp add: basis_draw_flip)
  have "state_at_measurement c i = qubit_at_bob d i"
    unfolding c using assms(3) by (rule state_at_measurement_bb84)
  with qubit_at_bob_differ [OF differ]
  have here: "prob (state_at_measurement c i) 0 = 1 / 2 \<and>
      prob (state_at_measurement c i) 1 = 1 / 2"
    by simp
  have "state_at_measurement
          (prepared_gates (nat n) (flip_alice_bit i d) @ [Measure [0..<nat n] ''bob_key'']) i =
        qubit_at_bob (flip_alice_bit i d) i"
    using assms(3) by (rule state_at_measurement_bb84)
  with qubit_at_bob_differ [OF differ'] bb84_circuit_ok [OF n, of "flip_alice_bit i d"]
  have there: "\<exists>c'. bb84_circuit n (flip_alice_bit i d) = Inr c' \<and>
               prob (state_at_measurement c' i) 0 = 1 / 2 \<and>
               prob (state_at_measurement c' i) 1 = 1 / 2"
    by simp
  have "map (bob_bit (flip_alice_bit i d)) [0..<nat n] = map (bob_bit d) [0..<nat n]"
    by (simp add: bob_bit_flip [OF differ])
  then have "transmit n (flip_alice_bit i d) = Inr (ak[i := 1 - ak ! i], ab, bb, bk)"
    unfolding transmit_ok [OF n] ak ab bb bk choices_key_flip [OF assms(3)]
    by (simp add: basis_draw_flip)
  moreover have "bk ! i = bob_bit d i"
    unfolding bk using assms(3) by simp
  moreover have "bob_bit d i = (if measure_draw d i < 1 / 2 then 0 else 1)"
    using differ by (rule bob_bit_differ)
  ultimately show ?thesis using here there by simp
qed

theorem mismatched_basis_is_fair_coin_witness:
  "[X, Z, X, Z, Z, Z, X, Z, X, Z] ! 3 \<noteq> [X, Z, X, X, Z, X, X, Z, Z, Z] ! 3 \<and>
   prob (state_at_measurement
           (prepared_gates (nat 10) (notebook_run three_quarters) @
            [Measure [0..<nat 10] ''bob_key'']) 3) 1 = 1 / 2 \<and>
   [0, 0, 0, 1, 0, 1, 0, 1, 1, 1] ! 3 =
     (if measure_draw (notebook_run three_quarters) 3 < 1 / 2 then 0 else 1 :: nat) \<and>
   \<not> measure_draw (notebook_run three_quarters) 3 < 1 / 2 \<and>
   transmit 10 (flip_alice_bit 3 (notebook_run three_quarters)) =
     Inr ([0, 0, 0, 0, 0, 0, 0, 1, 0, 1], [X, Z, X, Z, Z, Z, X, Z, X, Z],
          [X, Z, X, X, Z, X, X, Z, Z, Z], [0, 0, 0, 1, 0, 1, 0, 1, 1, 1]) \<and>
   [0, 0, 0, 0, 0, 0, 0, 1, 0, 1] ! 3 =
     (if measure_draw (notebook_run one_quarter) 3 < 1 / 2 then 0 else 1 :: nat) \<and>
   measure_draw (notebook_run one_quarter) 3 < 1 / 2 \<and>
   transmit 10 (flip_alice_bit 3 (notebook_run one_quarter)) =
     Inr ([0, 0, 0, 0, 0, 0, 0, 1, 0, 1], [X, Z, X, Z, Z, Z, X, Z, X, Z],
          [X, Z, X, X, Z, X, X, Z, Z, Z], [0, 0, 0, 0, 0, 0, 0, 1, 0, 1])"
proof -
  have i: "(3::nat) < nat 10" by simp
  have differ: "[X, Z, X, Z, Z, Z, X, Z, X, Z] ! 3 \<noteq> [X, Z, X, X, Z, X, X, Z, Z, Z] ! 3"
    by simp
  have high: "\<not> measure_draw (notebook_run three_quarters) 3 < 1 / 2"
    by (simp add: notebook_run_def three_quarters_def)
  have low: "measure_draw (notebook_run one_quarter) 3 < 1 / 2"
    by (simp add: notebook_run_def one_quarter_def)
  from mismatched_basis_is_fair_coin [OF transmit_notebook bb84_circuit_notebook i differ]
    mismatched_basis_is_fair_coin [OF transmit_notebook_low bb84_circuit_notebook i differ]
    differ high low
  show ?thesis by simp
qed

text \<open>
  C4. After step 8 of any run, the two sifted keys have the same length, which is the
  number of indices where the bases agree, and both list the bits at those indices in
  increasing order of the index.
\<close>

theorem sifted_keys_same_length_in_order:
  assumes "transmit n d = Inr (ak, ab, bb, bk)"
  shows "\<exists>sa sb. reconcile n ak ab bb bk = Inr (sa, sb) \<and>
           length sa = length sb \<and>
           length sa = card {i. i < nat n \<and> ab ! i = bb ! i} \<and>
           matching_indices n ab bb = filter (\<lambda>i. ab ! i = bb ! i) [0..<nat n] \<and>
           sorted_wrt (<) (matching_indices n ab bb) \<and>
           sa = map (\<lambda>i. ak ! i) (matching_indices n ab bb) \<and>
           sb = map (\<lambda>i. bk ! i) (matching_indices n ab bb)"
proof -
  from transmit_lengths [OF assms]
  have "reconcile n ak ab bb bk =
        Inr (map (\<lambda>i. ak ! i) (matching_indices n ab bb),
             map (\<lambda>i. bk ! i) (matching_indices n ab bb))"
    by (simp add: reconcile_ok)
  moreover have "matching_indices n ab bb = filter (\<lambda>i. ab ! i = bb ! i) [0..<nat n]"
    by (simp add: matching_indices_def py_range_def)
  ultimately show ?thesis
    using length_matching_indices [of n ab bb] sorted_matching_indices [of n ab bb]
    by auto
qed

theorem sifted_keys_same_length_in_order_witness:
  "transmit 10 (notebook_run three_quarters) =
     Inr ([0, 0, 0, 1, 0, 0, 0, 1, 0, 1], [X, Z, X, Z, Z, Z, X, Z, X, Z],
          [X, Z, X, X, Z, X, X, Z, Z, Z], [0, 0, 0, 1, 0, 1, 0, 1, 1, 1]) \<and>
   (\<exists>sa sb. reconcile 10 [0, 0, 0, 1, 0, 0, 0, 1, 0, 1] [X, Z, X, Z, Z, Z, X, Z, X, Z]
               [X, Z, X, X, Z, X, X, Z, Z, Z] [0, 0, 0, 1, 0, 1, 0, 1, 1, 1] = Inr (sa, sb) \<and>
            length sa = length sb \<and> length sa = 7)"
proof -
  note run = transmit_notebook
  from sifted_keys_same_length_in_order [OF run]
  obtain sa sb where r: "reconcile 10 [0, 0, 0, 1, 0, 0, 0, 1, 0, 1] [X, Z, X, Z, Z, Z, X, Z, X, Z]
               [X, Z, X, X, Z, X, X, Z, Z, Z] [0, 0, 0, 1, 0, 1, 0, 1, 1, 1] = Inr (sa, sb)"
    and l: "length sa = length sb"
    and sa: "sa = map (\<lambda>i. [0, 0, 0, 1, 0, 0, 0, 1, 0, 1] ! i)
       (matching_indices 10 [X, Z, X, Z, Z, Z, X, Z, X, Z] [X, Z, X, X, Z, X, X, Z, Z, Z])"
    by blast
  from sa have "length sa = 7" by (simp add: matching_notebook)
  with run r l show ?thesis by blast
qed

text \<open>
  C5, as stated, fails: for the lists of the example the bases agree at the indices
  0, 1, 2, 4, 6, 7 and 9 (at 6 and not at 8), the sifted key is
  \<open>[0, 0, 0, 0, 0, 1, 1]\<close> and not \<open>[0, 0, 0, 0, 1, 0, 1]\<close>, and the final
  key is \<open>[0, 0, 0, 0, 1, 1]\<close> and not \<open>[0, 0, 0, 1, 0, 1]\<close>. Bob's key is
  the one the notebook printed.
\<close>

theorem spec_example_counterexample:
  "matching_indices 10 [X, Z, X, Z, Z, Z, X, Z, X, Z] [X, Z, X, X, Z, X, X, Z, Z, Z] =
     [0, 1, 2, 4, 6, 7, 9] \<and>
   set [0, 1, 2, 4, 6, 7, 9 :: nat] \<noteq> {0, 1, 2, 4, 7, 8, 9} \<and>
   reconcile 10 [0, 0, 0, 1, 0, 0, 0, 1, 0, 1] [X, Z, X, Z, Z, Z, X, Z, X, Z]
     [X, Z, X, X, Z, X, X, Z, Z, Z] [0, 0, 0, 1, 0, 1, 0, 1, 1, 1] =
     Inr ([0, 0, 0, 0, 0, 1, 1], [0, 0, 0, 0, 0, 1, 1]) \<and>
   [0, 0, 0, 0, 0, 1, 1] \<noteq> [0, 0, 0, 0, 1, 0, 1 :: nat] \<and>
   integrity_check [0, 0, 0, 0, 0, 1, 1] [0, 0, 0, 0, 0, 1, 1] =
     Inr ([0, 0, 0, 0, 1, 1], [0, 0, 0, 0, 1, 1],
          Secure [0, 0, 0, 0, 1, 1] [0, 0, 0, 0, 1, 1]) \<and>
   [0, 0, 0, 0, 1, 1] \<noteq> [0, 0, 0, 1, 0, 1 :: nat]"
proof -
  have "reconcile 10 [0, 0, 0, 1, 0, 0, 0, 1, 0, 1] [X, Z, X, Z, Z, Z, X, Z, X, Z]
     [X, Z, X, X, Z, X, X, Z, Z, Z] [0, 0, 0, 1, 0, 1, 0, 1, 1, 1] =
     Inr ([0, 0, 0, 0, 0, 1, 1], [0, 0, 0, 0, 0, 1, 1])"
    by code_simp
  moreover have "integrity_check [0, 0, 0, 0, 0, 1, 1] [0, 0, 0, 0, 0, 1, 1] =
     Inr ([0, 0, 0, 0, 1, 1], [0, 0, 0, 0, 1, 1],
          Secure [0, 0, 0, 0, 1, 1] [0, 0, 0, 0, 1, 1])"
    by (simp add: integrity_check_def getitem_def)
  moreover have "set [0, 1, 2, 4, 6, 7, 9 :: nat] \<noteq> {0, 1, 2, 4, 7, 8, 9}"
  proof
    assume "set [0, 1, 2, 4, 6, 7, 9 :: nat] = {0, 1, 2, 4, 7, 8, 9}"
    moreover have "(8::nat) \<in> {0, 1, 2, 4, 7, 8, 9}" by simp
    ultimately have "(8::nat) \<in> set [0, 1, 2, 4, 6, 7, 9]" by (simp only:)
    then show False by simp
  qed
  ultimately show ?thesis
    by (simp add: matching_notebook)
qed

text \<open>
  C5, amended: on the lists of the example the bases agree at the indices 0, 1, 2, 4,
  6, 7 and 9, Alice's sifted key is \<open>[0, 0, 0, 0, 0, 1, 1]\<close>, and after the first
  bit is consumed both final keys are \<open>[0, 0, 0, 0, 1, 1]\<close>, whatever uniform
  samples the measurement draws.
\<close>

theorem notebook_example_keys:
  assumes "valid_draws 10 (notebook_run u)"
  shows "\<exists>s. bb84 10 (notebook_run u) = Inr s \<and>
           alice_key s = [0, 0, 0, 1, 0, 0, 0, 1, 0, 1] \<and>
           alice_bases s = [X, Z, X, Z, Z, Z, X, Z, X, Z] \<and>
           bob_bases s = [X, Z, X, X, Z, X, X, Z, Z, Z] \<and>
           matching_indices 10 (alice_bases s) (bob_bases s) = [0, 1, 2, 4, 6, 7, 9] \<and>
           sifted_alice s = [0, 0, 0, 0, 0, 1, 1] \<and>
           final_alice_key s = [0, 0, 0, 0, 1, 1] \<and>
           final_bob_key s = [0, 0, 0, 0, 1, 1] \<and>
           printed s = Secure [0, 0, 0, 0, 1, 1] [0, 0, 0, 0, 1, 1]"
  unfolding bb84_notebook [OF assms] by (simp add: matching_notebook)

theorem notebook_example_keys_witness:
  "valid_draws 10 (notebook_run one_quarter) \<and>
   (\<exists>s. bb84 10 (notebook_run one_quarter) = Inr s \<and>
        sifted_alice s = [0, 0, 0, 0, 0, 1, 1] \<and>
        final_alice_key s = [0, 0, 0, 0, 1, 1] \<and>
        final_bob_key s = [0, 0, 0, 0, 1, 1])"
  using notebook_example_keys [OF valid_one_quarter] valid_one_quarter by blast

text \<open>
  C6. The claim asks for an ordinary result when no index has matching bases. The
  last cell reads \<^verbatim>\<open>final_alice_key[0]\<close> without a test for the empty list, so
  the run with ten qubits in which Alice always draws \<^verbatim>\<open>'X'\<close> and Bob always
  draws \<^verbatim>\<open>'Z'\<close> ends with an \<^verbatim>\<open>IndexError\<close>.
\<close>

theorem empty_sifted_key_raises:
  "bb84 10 mismatched_run = Inl IndexError"
  by (rule bb84_no_match) (simp_all add: sifted_mismatched)

text \<open>
  C8, as stated, fails: with one qubit and differing bases the run ends with an
  \<^verbatim>\<open>IndexError\<close>, and with no qubit the only exception is the
  \<^verbatim>\<open>ValueError\<close> of the measurement in step 6, after the keys, the bases and
  both loops.
\<close>

theorem no_argument_check_counterexample:
  "bb84 1 mismatched_run = Inl IndexError \<and> bb84 0 mismatched_run = Inl ValueError"
proof
  show "bb84 1 mismatched_run = Inl IndexError"
    by (rule bb84_no_match) (simp_all add: sifted_mismatched)
  show "bb84 0 mismatched_run = Inl ValueError"
    by (simp add: bb84_empty)
qed

text \<open>
  C8, amended: the notebook does not check \<^verbatim>\<open>num_bits\<close>. When it is zero or
  negative the run ends with the \<^verbatim>\<open>ValueError\<close> that the measurement of an
  empty list of qubits raises. When it is at least 1 and the bases agree at some
  index, the run completes and prints one of its two reports.
\<close>

theorem run_completes_when_a_basis_matches:
  "(n \<le> 0 \<longrightarrow> bb84 n d = Inl ValueError) \<and>
   (1 \<le> n \<and> (\<exists>i<nat n. alice_basis_draw d i = bob_basis_draw d i) \<longrightarrow>
      (\<exists>s. bb84 n d = Inr s \<and>
         (printed s = Compromised \<or> printed s = Secure (final_alice_key s) (final_bob_key s))))"
  using bb84_completes [of n _ d] by (auto simp: bb84_empty)

theorem run_completes_when_a_basis_matches_witness:
  "(-3::int) \<le> 0 \<and> bb84 (-3) (notebook_run one_quarter) = Inl ValueError \<and>
   (1::int) \<le> 10 \<and>
   (\<exists>i<nat 10. alice_basis_draw (notebook_run one_quarter) i =
                bob_basis_draw (notebook_run one_quarter) i) \<and>
   (\<exists>s. bb84 10 (notebook_run one_quarter) = Inr s \<and>
      (printed s = Compromised \<or> printed s = Secure (final_alice_key s) (final_bob_key s)))"
proof -
  have m: "\<exists>i<nat 10. alice_basis_draw (notebook_run one_quarter) i =
                bob_basis_draw (notebook_run one_quarter) i"
    by (rule exI [of _ 0]) (simp add: notebook_run_def draw_list_def)
  from run_completes_when_a_basis_matches [of "-3" "notebook_run one_quarter"]
    run_completes_when_a_basis_matches [of 10 "notebook_run one_quarter"] m
  show ?thesis by simp
qed

end
